theory Spec2Isabelle
  imports Main "HOL-Library.Multiset" "HOL-Library.List_Lexorder"
begin

text \<open>
  The open list of the path finders, \<^verbatim>\<open>pathfinding/core/heap.py\<close>: the class
  \<^verbatim>\<open>SimpleHeap\<close>, a priority queue of node keys kept with \<^verbatim>\<open>heapq\<close>. The theory
  models the class and the functions of \<^verbatim>\<open>heapq\<close> it calls, proves that the heap
  invariant is kept, and settles the properties of the queue: the order in which nodes
  are popped, the tie-break, exhaustion, the effect of pushing and removing, and how
  many entries are retained.
\<close>

section \<open>Errors\<close>

text \<open>
  The exceptions the modelled code can raise. \<open>AssertionError\<close> is the
  \<^verbatim>\<open>assert False\<close> of \<^verbatim>\<open>_get_node_tuple\<close>, \<open>IndexError\<close> is what
  \<^verbatim>\<open>heapq.heappop\<close> raises on an empty list and what indexing a tuple out of range
  raises, \<open>UnboundLocalError\<close> is the read of the local \<^verbatim>\<open>node\<close> of
  \<^verbatim>\<open>pop_node\<close> when none of its three branches has assigned it.
\<close>

datatype error = AssertionError | IndexError | UnboundLocalError

section \<open>The heapq module\<close>

text \<open>
  \<^verbatim>\<open>heapq\<close> keeps a binary min-heap in a Python list: the children of index
  \<open>k\<close> are at \<open>2k+1\<close> and \<open>2k+2\<close>. The functions below follow the module's Python
  text statement by statement; items are compared with \<open><\<close> only, as the module does.
  \<^verbatim>\<open>heappush\<close> sifts from the last index of a list that is not empty and
  \<^verbatim>\<open>heappop\<close> from index 0 of one: every index the sifting loops read or write is
  below the length of the list, and no access is out of range.

  \<^verbatim>\<open>
  def _siftdown(heap, startpos, pos):
      newitem = heap[pos]
      while pos > startpos:
          parentpos = (pos - 1) >> 1
          parent = heap[parentpos]
          if newitem < parent:
              heap[pos] = parent
              pos = parentpos
              continue
          break
      heap[pos] = newitem
  \<close>
\<close>

function siftdown_loop :: "'a::linorder list \<Rightarrow> 'a \<Rightarrow> nat \<Rightarrow> nat \<Rightarrow> 'a list" where
  "siftdown_loop heap newitem startpos pos =
     (if pos > startpos then
        (let parentpos = (pos - 1) div 2;
             parent = heap ! parentpos
         in if newitem < parent
            then siftdown_loop (heap[pos := parent]) newitem startpos parentpos
            else heap[pos := newitem])
      else heap[pos := newitem])"
  by pat_completeness auto
termination
  by (relation "measure (\<lambda>(heap, newitem, startpos, pos). pos)") auto

declare siftdown_loop.simps [simp del]

definition siftdown :: "'a::linorder list \<Rightarrow> nat \<Rightarrow> nat \<Rightarrow> 'a list" where
  "siftdown heap startpos pos = siftdown_loop heap (heap ! pos) startpos pos"

text \<open>
  \<^verbatim>\<open>
  def _siftup(heap, pos):
      endpos = len(heap)
      startpos = pos
      newitem = heap[pos]
      childpos = 2*pos + 1
      while childpos < endpos:
          rightpos = childpos + 1
          if rightpos < endpos and not heap[childpos] < heap[rightpos]:
              childpos = rightpos
          heap[pos] = heap[childpos]
          pos = childpos
          childpos = 2*pos + 1
      heap[pos] = newitem
      _siftdown(heap, startpos, pos)
  \<close>
  The loop moves the hole at \<open>pos\<close> down to a leaf, pulling the smaller child up each
  time; it returns the list and the final position of the hole.
\<close>

function siftup_loop :: "'a::linorder list \<Rightarrow> nat \<Rightarrow> nat \<Rightarrow> 'a list \<times> nat" where
  "siftup_loop heap endpos pos =
     (let childpos = 2 * pos + 1 in
      if childpos < endpos then
        (let rightpos = childpos + 1;
             childpos = (if rightpos < endpos \<and> \<not> heap ! childpos < heap ! rightpos
                         then rightpos else childpos)
         in siftup_loop (heap[pos := heap ! childpos]) endpos childpos)
      else (heap, pos))"
  by pat_completeness auto
termination
  by (relation "measure (\<lambda>(heap, endpos, pos). endpos - pos)") auto

declare siftup_loop.simps [simp del]

definition siftup :: "'a::linorder list \<Rightarrow> nat \<Rightarrow> 'a list" where
  "siftup heap pos =
     (let endpos = length heap;
          startpos = pos;
          newitem = heap ! pos;
          (heap', pos') = siftup_loop heap endpos pos
      in siftdown (heap'[pos' := newitem]) startpos pos')"

text \<open>
  \<^verbatim>\<open>
  def heappush(heap, item):
      heap.append(item)
      _siftdown(heap, 0, len(heap)-1)
  \<close>
\<close>

definition heappush :: "'a::linorder list \<Rightarrow> 'a \<Rightarrow> 'a list" where
  "heappush heap item = (let heap = heap @ [item] in siftdown heap 0 (length heap - 1))"

text \<open>
  \<^verbatim>\<open>
  def heappop(heap):
      lastelt = heap.pop()    # raises IndexError if heap is empty
      if heap:
          returnitem = heap[0]
          heap[0] = lastelt
          _siftup(heap, 0)
          return returnitem
      return lastelt
  \<close>
  The model returns the popped item together with the list as the call leaves it.
\<close>

definition heappop :: "'a::linorder list \<Rightarrow> error + ('a \<times> 'a list)" where
  "heappop heap =
     (if heap = [] then Inl IndexError
      else let lastelt = last heap;
               heap = butlast heap
           in if heap \<noteq> []
              then (let returnitem = heap ! 0;
                        heap = siftup (heap[0 := lastelt]) 0
                    in Inr (returnitem, heap))
              else Inr (lastelt, heap))"

subsection \<open>The list keeps its length\<close>

text \<open>
  Sifting overwrites cells of the list and never adds or drops one; \<^verbatim>\<open>heappop\<close>
  shortens the list by exactly one item. The loop of \<^verbatim>\<open>pop_node\<close> terminates for
  this reason.
\<close>

lemma length_siftdown_loop [simp]:
  "length (siftdown_loop heap newitem startpos pos) = length heap"
  by (induction heap newitem startpos pos rule: siftdown_loop.induct)
     (subst siftdown_loop.simps, simp add: Let_def)

lemma length_siftup_loop:
  "siftup_loop h n p = (h', p') \<Longrightarrow> length h' = length h"
proof (induction h n p arbitrary: h' p' rule: siftup_loop.induct)
  case (1 heap endpos pos)
  show ?case
  proof (cases "2 * pos + 1 < endpos")
    case True
    define c where "c = (if 2 * pos + 1 + 1 < endpos \<and> \<not> heap ! (2 * pos + 1) < heap ! (2 * pos + 1 + 1)
                         then 2 * pos + 1 + 1 else 2 * pos + 1)"
    have "siftup_loop heap endpos pos = siftup_loop (heap[pos := heap ! c]) endpos c"
      using True by (subst siftup_loop.simps) (simp add: Let_def c_def)
    then show ?thesis
      using "1.IH"[OF refl True refl c_def, of h' p'] "1.prems" by simp
  next
    case False
    then have "siftup_loop heap endpos pos = (heap, pos)"
      by (subst siftup_loop.simps) (simp add: Let_def)
    then show ?thesis using "1.prems" by auto
  qed
qed

lemma length_siftup [simp]: "length (siftup h p) = length h"
  by (auto simp: siftup_def siftdown_def Let_def length_siftup_loop split: prod.splits)

lemma heappop_Nil: "heappop [] = Inl IndexError"
  by (simp add: heappop_def)

lemma heappop_Inl: "heappop h = Inl e \<Longrightarrow> h = [] \<and> e = IndexError"
  by (auto simp: heappop_def Let_def split: if_splits)

lemma heappop_nonempty: "h \<noteq> [] \<Longrightarrow> \<exists>r h'. heappop h = Inr (r, h')"
  by (simp add: heappop_def Let_def)

lemma heappop_root: "heappop h = Inr (r, h') \<Longrightarrow> h \<noteq> [] \<and> r = h ! 0"
  by (cases h rule: rev_cases)
     (auto simp: heappop_def Let_def nth_append split: if_splits)

lemma length_heappop: "heappop h = Inr (r, h') \<Longrightarrow> length h = Suc (length h')"
  by (cases h rule: rev_cases) (auto simp: heappop_def Let_def split: if_splits)

section \<open>Nodes and containers\<close>

text \<open>
  Modelled from the spec: the node classes of \<^verbatim>\<open>pathfinding.core.node\<close> are not among
  the source files. \<^verbatim>\<open>heap.py\<close> reads the attributes \<^verbatim>\<open>f\<close>, \<^verbatim>\<open>closed\<close>,
  \<^verbatim>\<open>node_id\<close>, \<^verbatim>\<open>x\<close>, \<^verbatim>\<open>y\<close> and \<^verbatim>\<open>grid_id\<close> of a node and nothing
  else; the record has one field for each (\<open>node_f\<close>, \<open>node_x\<close>, \<open>node_y\<close> for
  \<^verbatim>\<open>f\<close>, \<^verbatim>\<open>x\<close>, \<^verbatim>\<open>y\<close>). The cost \<^verbatim>\<open>f\<close> and the identity fields are
  Python numbers, modelled as unbounded integers. A node that lacks the identity
  fields of its container kind is outside the contract of the class (section 7 of the
  specification) and outside this model.
\<close>

record node =
  node_f :: int
  closed :: bool
  node_id :: int
  node_x :: int
  node_y :: int
  grid_id :: int

text \<open>
  Modelled from the spec: the classes \<^verbatim>\<open>Graph\<close>, \<^verbatim>\<open>Grid\<close> and \<^verbatim>\<open>World\<close> are
  imported by \<^verbatim>\<open>heap.py\<close> and are not among the source files. The heap tests the
  container with \<^verbatim>\<open>isinstance\<close> and calls its lookup: \<^verbatim>\<open>grid.node(node_id)\<close> on a
  graph, \<^verbatim>\<open>grid.node(x, y)\<close> on a grid, \<^verbatim>\<open>grid.grids[grid_id].node(x, y)\<close> on a
  world. A container is its kind together with its lookup, taken as a parameter; the
  lookup gives the node as it is now, with its current \<^verbatim>\<open>f\<close> and \<^verbatim>\<open>closed\<close>.
  \<open>Unsupported\<close> stands for an object of any other class.
\<close>

datatype container =
    Graph "int \<Rightarrow> node"
  | Grid "int \<Rightarrow> int \<Rightarrow> node"
  | World "int \<Rightarrow> int \<Rightarrow> int \<Rightarrow> node"
  | Unsupported

text \<open>
  Modelled from the spec: a container owns its nodes and finds each by its identity
  (\<^verbatim>\<open>lookup_by_id\<close>, \<^verbatim>\<open>lookup_by_xy\<close>, \<^verbatim>\<open>lookup_by_xy_and_subgrid\<close> in section 6
  of the specification). \<open>has_node g n\<close> says that \<open>n\<close> is a node of \<open>g\<close>: the
  lookup of \<open>g\<close> at the identity fields of \<open>n\<close> gives \<open>n\<close> itself.
\<close>

definition has_node :: "container \<Rightarrow> node \<Rightarrow> bool" where
  "has_node g n =
     (case g of
        Graph nodes \<Rightarrow> nodes (node_id n) = n
      | Grid nodes \<Rightarrow> nodes (node_x n) (node_y n) = n
      | World grids \<Rightarrow> grids (grid_id n) (node_x n) (node_y n) = n
      | Unsupported \<Rightarrow> False)"

section \<open>SimpleHeap\<close>

text \<open>
  The entries of \<^verbatim>\<open>open_list\<close> are Python tuples of numbers, \<^verbatim>\<open>(f, heap_order,
  node_id)\<close>, \<^verbatim>\<open>(f, heap_order, x, y)\<close> or \<^verbatim>\<open>(f, heap_order, x, y, grid_id)\<close>.
  They are modelled as integer lists: Python compares tuples lexicographically, a
  proper prefix being smaller, which is the order of \<open>List_Lexorder\<close>.

  The object has three attributes. \<^verbatim>\<open>grid\<close> is a reference to the container, which
  the caller owns and mutates (the search driver sets \<^verbatim>\<open>closed\<close> and \<^verbatim>\<open>f\<close> of its
  nodes between calls): the field \<open>grid\<close> holds the container in its current state,
  and a mutation by the caller is an update of this field.
\<close>

type_synonym node_tuple = "int list"

record SimpleHeap =
  grid :: container
  open_list :: "node_tuple list"
  number_pushed :: int

text \<open>
  \<^verbatim>\<open>
  def _get_node_tuple(self, node, heap_order):
      if isinstance(self.grid, Graph):
          return (node.f, heap_order, node.node_id)
      elif isinstance(self.grid, Grid):
          return (node.f, heap_order, node.x, node.y)
      elif isinstance(self.grid, World):
          return (node.f, heap_order, node.x, node.y, node.grid_id)
      else:
          assert False, "unsupported heap node node=%s" % node
  \<close>
  The assertion is modelled as Python runs it by default, with assertions enabled.
\<close>

fun get_node_tuple :: "container \<Rightarrow> node \<Rightarrow> int \<Rightarrow> error + node_tuple" where
  "get_node_tuple (Graph nodes) node heap_order = Inr [node_f node, heap_order, node_id node]"
| "get_node_tuple (Grid nodes) node heap_order =
     Inr [node_f node, heap_order, node_x node, node_y node]"
| "get_node_tuple (World grids) node heap_order =
     Inr [node_f node, heap_order, node_x node, node_y node, grid_id node]"
| "get_node_tuple Unsupported node heap_order = Inl AssertionError"

text \<open>
  \<^verbatim>\<open>
  def __init__(self, node, grid):
      self.grid = grid
      self.open_list = [self._get_node_tuple(node, 0)]
      self.number_pushed = 0
  \<close>
\<close>

definition init :: "node \<Rightarrow> container \<Rightarrow> error + SimpleHeap" where
  "init node g =
     (case get_node_tuple g node 0 of
        Inl e \<Rightarrow> Inl e
      | Inr t \<Rightarrow> Inr \<lparr>grid = g, open_list = [t], number_pushed = 0\<rparr>)"

text \<open>
  Indexing a tuple, \<^verbatim>\<open>node_tuple[i]\<close>, raises \<^verbatim>\<open>IndexError\<close> out of range.
\<close>

definition tuple_get :: "node_tuple \<Rightarrow> nat \<Rightarrow> error + int" where
  "tuple_get t i = (if i < length t then Inr (t ! i) else Inl IndexError)"

text \<open>
  The three branches of \<^verbatim>\<open>pop_node\<close> that turn a popped tuple back into a node:
  \<^verbatim>\<open>
  if isinstance(self.grid, Graph):
      node = self.grid.node(node_tuple[2])
  elif isinstance(self.grid, Grid):
      node = self.grid.node(node_tuple[2], node_tuple[3])
  elif isinstance(self.grid, World):
      node = self.grid.grids[
          node_tuple[4]].node(node_tuple[2], node_tuple[3])
  \<close>
  No branch assigns \<^verbatim>\<open>node\<close> when the container is of another class, and the read of
  \<^verbatim>\<open>node.closed\<close> that follows raises \<^verbatim>\<open>UnboundLocalError\<close>.
\<close>

fun resolve :: "container \<Rightarrow> node_tuple \<Rightarrow> error + node" where
  "resolve (Graph nodes) t =
     (case tuple_get t 2 of Inl e \<Rightarrow> Inl e | Inr i \<Rightarrow> Inr (nodes i))"
| "resolve (Grid nodes) t =
     (case tuple_get t 2 of Inl e \<Rightarrow> Inl e | Inr x \<Rightarrow>
      (case tuple_get t 3 of Inl e \<Rightarrow> Inl e | Inr y \<Rightarrow> Inr (nodes x y)))"
| "resolve (World grids) t =
     (case tuple_get t 4 of Inl e \<Rightarrow> Inl e | Inr gid \<Rightarrow>
      (case tuple_get t 2 of Inl e \<Rightarrow> Inl e | Inr x \<Rightarrow>
       (case tuple_get t 3 of Inl e \<Rightarrow> Inl e | Inr y \<Rightarrow> Inr (grids gid x y))))"
| "resolve Unsupported t = Inl UnboundLocalError"

text \<open>
  \<^verbatim>\<open>
  def pop_node(self):
      while self.open_list:
          node_tuple = heapq.heappop(self.open_list)
          ... node = the node of node_tuple ...
          if not node.closed:
              return node
      return None
  \<close>
  \<open>pop_loop\<close> is the loop on the container and the list. It returns what the method
  returns, \<open>None\<close> or the node, and with the node the tuple that was popped for it
  (the local \<^verbatim>\<open>node_tuple\<close> when the method returns), and the list as the call leaves
  it. \<open>pop_node\<close> is the method: it keeps the node only.
\<close>

function pop_loop ::
  "container \<Rightarrow> node_tuple list \<Rightarrow> error + ((node_tuple \<times> node) option \<times> node_tuple list)" where
  "pop_loop g ol =
     (if ol \<noteq> [] then
        (case heappop ol of
           Inl e \<Rightarrow> Inl e
         | Inr (node_tuple, ol') \<Rightarrow>
             (case resolve g node_tuple of
                Inl e \<Rightarrow> Inl e
              | Inr node \<Rightarrow>
                  if \<not> closed node then Inr (Some (node_tuple, node), ol')
                  else pop_loop g ol'))
      else Inr (None, ol))"
  by pat_completeness auto
termination
  by (relation "measure (\<lambda>(g, ol). length ol)") (auto dest: length_heappop)

declare pop_loop.simps [simp del]

definition pop_node :: "SimpleHeap \<Rightarrow> error + (node option \<times> SimpleHeap)" where
  "pop_node h =
     (case pop_loop (grid h) (open_list h) of
        Inl e \<Rightarrow> Inl e
      | Inr (r, ol) \<Rightarrow> Inr (map_option snd r, h\<lparr>open_list := ol\<rparr>))"

text \<open>
  \<^verbatim>\<open>
  def push_node(self, node):
      self.number_pushed = self.number_pushed + 1
      node_tuple = self._get_node_tuple(node, self.number_pushed)
      heapq.heappush(self.open_list, node_tuple)
  \<close>
  When the key cannot be built the method raises with the counter already incremented;
  the model then returns the exception alone.
\<close>

definition push_node :: "SimpleHeap \<Rightarrow> node \<Rightarrow> error + SimpleHeap" where
  "push_node h node =
     (let h = h\<lparr>number_pushed := number_pushed h + 1\<rparr> in
      case get_node_tuple (grid h) node (number_pushed h) of
        Inl e \<Rightarrow> Inl e
      | Inr node_tuple \<Rightarrow> Inr (h\<lparr>open_list := heappush (open_list h) node_tuple\<rparr>))"

text \<open>
  \<^verbatim>\<open>
  def remove_node(self, node, f):
      # This method is no longer used due to simplification.
      pass
  \<close>
\<close>

definition remove_node :: "SimpleHeap \<Rightarrow> node \<Rightarrow> int \<Rightarrow> SimpleHeap" where
  "remove_node h node f = h"

text \<open>
  \<^verbatim>\<open>
  def __len__(self):
      return len(self.open_list)
  \<close>
\<close>

definition len :: "SimpleHeap \<Rightarrow> nat" where
  "len h = length (open_list h)"

section \<open>Sequences of calls\<close>

text \<open>
  A caller pushing the nodes of a list one after the other; the first exception ends
  the sequence.
\<close>

fun push_nodes :: "SimpleHeap \<Rightarrow> node list \<Rightarrow> error + SimpleHeap" where
  "push_nodes h [] = Inr h"
| "push_nodes h (n # ns) =
     (case push_node h n of Inl e \<Rightarrow> Inl e | Inr h' \<Rightarrow> push_nodes h' ns)"

text \<open>
  A caller revising the cost of nodes one after the other, each revision being the
  pair of calls \<^verbatim>\<open>remove_node(node, old_f)\<close>, \<^verbatim>\<open>push_node(node)\<close>; a list item is
  the node with its new cost, and the old cost.
\<close>

fun revise_nodes :: "SimpleHeap \<Rightarrow> (node \<times> int) list \<Rightarrow> error + SimpleHeap" where
  "revise_nodes h [] = Inr h"
| "revise_nodes h ((n, old_f) # rs) =
     (case push_node (remove_node h n old_f) n of
        Inl e \<Rightarrow> Inl e
      | Inr h' \<Rightarrow> revise_nodes h' rs)"

text \<open>
  The driver changes the nodes of the container, never the container's class.
\<close>

fun same_kind :: "container \<Rightarrow> container \<Rightarrow> bool" where
  "same_kind (Graph f) g = (case g of Graph f' \<Rightarrow> True | _ \<Rightarrow> False)"
| "same_kind (Grid f) g = (case g of Grid f' \<Rightarrow> True | _ \<Rightarrow> False)"
| "same_kind (World f) g = (case g of World f' \<Rightarrow> True | _ \<Rightarrow> False)"
| "same_kind Unsupported g = (case g of Unsupported \<Rightarrow> True | _ \<Rightarrow> False)"

text \<open>
  Successive calls of \<^verbatim>\<open>pop_node\<close>. The caller may change the nodes between two
  calls (it closes the node it was given, it revises costs): the list gives the state
  of the container at each call. The result lists what the calls return, each node
  with the tuple popped for it, up to the first call that returns \<^verbatim>\<open>None\<close>; an
  exception raised by a call ends the sequence.
\<close>

fun pops :: "SimpleHeap \<Rightarrow> container list \<Rightarrow> error + (node_tuple \<times> node) list" where
  "pops h [] = Inr []"
| "pops h (g # gs) =
     (case pop_loop g (open_list h) of
        Inl e \<Rightarrow> Inl e
      | Inr (None, ol) \<Rightarrow> Inr []
      | Inr (Some r, ol) \<Rightarrow>
          (case pops (h\<lparr>grid := g, open_list := ol\<rparr>) gs of
             Inl e \<Rightarrow> Inl e
           | Inr rs \<Rightarrow> Inr (r # rs)))"

text \<open>
  The keys that \<^verbatim>\<open>push_node\<close> builds for the nodes of a list pushed in turn, when
  \<^verbatim>\<open>number_pushed\<close> is \<open>p\<close> before the first push.
\<close>

fun pushed_keys :: "container \<Rightarrow> int \<Rightarrow> node list \<Rightarrow> node_tuple list" where
  "pushed_keys g p [] = []"
| "pushed_keys g p (n # ns) =
     (case get_node_tuple g n (p + 1) of Inl e \<Rightarrow> [] | Inr t \<Rightarrow> [t]) @ pushed_keys g (p + 1) ns"

section \<open>The heap invariant\<close>

text \<open>
  The invariant of \<^verbatim>\<open>heapq\<close>: no item is smaller than its parent, the parent of
  index \<open>i\<close> being at \<open>(i - 1) div 2\<close>.
\<close>

definition is_heap :: "'a::linorder list \<Rightarrow> bool" where
  "is_heap h = list_all (\<lambda>i. h ! ((i - 1) div 2) \<le> h ! i) [1..<length h]"

text \<open>
  While an item is sifted, one cell of the list is a hole: its content is about to be
  overwritten. \<open>hole_down h p\<close> says that \<open>h\<close> is a heap but for the hole at \<open>p\<close>:
  the invariant holds between all other cells, and across the hole from its parent to
  its children. \<open>hole_up h x p\<close> adds that \<open>x\<close>, the item waiting to be written, is
  not above the children of the hole.
\<close>

definition hole_down :: "'a::linorder list \<Rightarrow> nat \<Rightarrow> bool" where
  "hole_down h p \<longleftrightarrow>
     p < length h \<and>
     (\<forall>i. 0 < i \<and> i < length h \<and> i \<noteq> p \<and> (i - 1) div 2 \<noteq> p \<longrightarrow> h ! ((i - 1) div 2) \<le> h ! i) \<and>
     (\<forall>i. 0 < i \<and> i < length h \<and> (i - 1) div 2 = p \<and> 0 < p \<longrightarrow> h ! ((p - 1) div 2) \<le> h ! i)"

definition hole_up :: "'a::linorder list \<Rightarrow> 'a \<Rightarrow> nat \<Rightarrow> bool" where
  "hole_up h x p \<longleftrightarrow>
     hole_down h p \<and> (\<forall>i. 0 < i \<and> i < length h \<and> (i - 1) div 2 = p \<longrightarrow> x \<le> h ! i)"

section \<open>Example data\<close>

text \<open>
  Three nodes of a grid: \<open>node_A\<close> at \<open>(0, 0)\<close> with cost 5, \<open>node_B\<close> at
  \<open>(1, 0)\<close> and \<open>node_C\<close> at \<open>(2, 0)\<close> with cost 3 each, all open. \<open>grid_AB\<close>
  and \<open>grid_ABC\<close> are grids that hold them. The other grids are \<open>grid_AB\<close> as the
  driver may change it: with both nodes closed; with the cost of \<open>node_A\<close> revised
  to 2; with \<open>node_A\<close> closed after that; with \<open>node_B\<close> closed as well.
\<close>

definition node_A :: node where
  "node_A = \<lparr>node_f = 5, closed = False, node_id = 0, node_x = 0, node_y = 0, grid_id = 0\<rparr>"

definition node_B :: node where
  "node_B = \<lparr>node_f = 3, closed = False, node_id = 1, node_x = 1, node_y = 0, grid_id = 0\<rparr>"

definition node_C :: node where
  "node_C = \<lparr>node_f = 3, closed = False, node_id = 2, node_x = 2, node_y = 0, grid_id = 0\<rparr>"

definition grid_AB :: container where
  "grid_AB = Grid (\<lambda>x y. if x = 0 then node_A else node_B)"

definition grid_ABC :: container where
  "grid_ABC = Grid (\<lambda>x y. if x = 0 then node_A else if x = 1 then node_B else node_C)"


definition grid_AB_closed :: container where
  "grid_AB_closed = Grid (\<lambda>x y. if x = 0 then node_A\<lparr>closed := True\<rparr> else node_B\<lparr>closed := True\<rparr>)"

definition grid_A2B :: container where
  "grid_A2B = Grid (\<lambda>x y. if x = 0 then node_A\<lparr>node_f := 2\<rparr> else node_B)"

definition grid_A2B_closed_A :: container where
  "grid_A2B_closed_A =
     Grid (\<lambda>x y. if x = 0 then node_A\<lparr>node_f := 2, closed := True\<rparr> else node_B)"

definition grid_A2B_closed_AB :: container where
  "grid_A2B_closed_AB =
     Grid (\<lambda>x y. if x = 0 then node_A\<lparr>node_f := 2, closed := True\<rparr>
                  else node_B\<lparr>closed := True\<rparr>)"

text \<open>
  An open node \<open>node_S\<close> whose identity fields all differ, a closed node \<open>node_O\<close>,
  and a graph, a grid and a world that hold \<open>node_S\<close> at its identity and \<open>node_O\<close>
  everywhere else.
\<close>

definition node_S :: node where
  "node_S = \<lparr>node_f = 7, closed = False, node_id = 4, node_x = 1, node_y = 2, grid_id = 3\<rparr>"

definition node_O :: node where
  "node_O = \<lparr>node_f = 1, closed = True, node_id = 0, node_x = 0, node_y = 0, grid_id = 0\<rparr>"

definition graph_S :: container where
  "graph_S = Graph (\<lambda>i. if i = 4 then node_S else node_O)"

definition grid_S :: container where
  "grid_S = Grid (\<lambda>x y. if x = 1 \<and> y = 2 then node_S else node_O)"

definition world_S :: container where
  "world_S = World (\<lambda>gid x y. if gid = 3 \<and> x = 1 \<and> y = 2 then node_S else node_O)"

text \<open>
  The call sequence \<^verbatim>\<open>h = SimpleHeap(A, grid); h.remove_node(A, 5); h.pop_node()\<close> on
  the open node \<open>node_A\<close>; the result is what \<^verbatim>\<open>pop_node\<close> returns.
\<close>

definition remove_scenario :: "error + node option" where
  "remove_scenario =
     (case init node_A grid_AB of Inl e \<Rightarrow> Inl e | Inr h0 \<Rightarrow>
      case pop_node (remove_node h0 node_A 5) of Inl e \<Rightarrow> Inl e | Inr (r, h1) \<Rightarrow> Inr r)"

text \<open>
  The cost revision of the specification: \<^verbatim>\<open>h = SimpleHeap(A, grid)\<close> with
  \<^verbatim>\<open>A.f = 5\<close> (insertion order 0), \<^verbatim>\<open>h.push_node(B)\<close> with \<^verbatim>\<open>B.f = 3\<close>
  (order 1), then the revision of \<^verbatim>\<open>A\<close>: \<^verbatim>\<open>h.remove_node(A, 5)\<close>, \<^verbatim>\<open>A.f = 2\<close>,
  \<^verbatim>\<open>h.push_node(A)\<close> (order 2), then three calls of \<^verbatim>\<open>pop_node\<close>. The parameters
  are the states of the grid at the three calls of \<^verbatim>\<open>pop_node\<close>; the result lists
  what the three calls return.
\<close>

definition revision_scenario ::
  "container \<Rightarrow> container \<Rightarrow> container \<Rightarrow> error + node option list" where
  "revision_scenario g1 g2 g3 =
     (case init node_A grid_AB of Inl e \<Rightarrow> Inl e | Inr h0 \<Rightarrow>
      case push_node h0 node_B of Inl e \<Rightarrow> Inl e | Inr h1 \<Rightarrow>
      case push_node ((remove_node h1 node_A 5)\<lparr>grid := grid_A2B\<rparr>) (node_A\<lparr>node_f := 2\<rparr>) of
        Inl e \<Rightarrow> Inl e | Inr h2 \<Rightarrow>
      case pop_node (h2\<lparr>grid := g1\<rparr>) of Inl e \<Rightarrow> Inl e | Inr (r1, h3) \<Rightarrow>
      case pop_node (h3\<lparr>grid := g2\<rparr>) of Inl e \<Rightarrow> Inl e | Inr (r2, h4) \<Rightarrow>
      case pop_node (h4\<lparr>grid := g3\<rparr>) of Inl e \<Rightarrow> Inl e | Inr (r3, h5) \<Rightarrow>
      Inr [r1, r2, r3])"

text \<open>Equations that evaluate the model on concrete data.\<close>

lemmas heapq_simps =
  heappush_def heappop_def siftdown_def siftup_def siftdown_loop.simps siftup_loop.simps Let_def

lemmas model_simps =
  init_def push_node_def pop_node_def remove_node_def pop_loop.simps tuple_get_def heapq_simps

section \<open>Correctness of heappush and heappop\<close>

lemma is_heap_iff:
  "is_heap h \<longleftrightarrow> (\<forall>i. 0 < i \<and> i < length h \<longrightarrow> h ! ((i - 1) div 2) \<le> h ! i)"
  by (auto simp: is_heap_def list_all_iff)

lemma hole_up_step:
  assumes inv: "hole_up h x p" and pos: "0 < p" and lt: "x < h ! ((p - 1) div 2)"
  shows "hole_up (h[p := h ! ((p - 1) div 2)]) x ((p - 1) div 2)"
proof -
  let ?q = "(p - 1) div 2"
  let ?h = "h[p := h ! ?q]"
  from inv have p: "p < length h"
    and c1: "\<And>i. 0 < i \<Longrightarrow> i < length h \<Longrightarrow> i \<noteq> p \<Longrightarrow> (i - 1) div 2 \<noteq> p \<Longrightarrow> h ! ((i - 1) div 2) \<le> h ! i"
    and c2: "\<And>i. 0 < i \<Longrightarrow> i < length h \<Longrightarrow> (i - 1) div 2 = p \<Longrightarrow> h ! ?q \<le> h ! i"
    using pos by (auto simp: hole_up_def hole_down_def)
  have q: "?q < p" using pos by simp
  have qq: "0 < ?q \<Longrightarrow> h ! ((?q - 1) div 2) \<le> h ! ?q"
    using c1[of ?q] q p by simp
  have g: "(?q - 1) div 2 \<noteq> p" using q by linarith
  have A: "?h ! ((i - 1) div 2) \<le> ?h ! i"
    if i: "0 < i" "i < length h" "i \<noteq> ?q" "(i - 1) div 2 \<noteq> ?q" for i
  proof -
    from i have ip: "i \<noteq> p" by auto
    show ?thesis
    proof (cases "(i - 1) div 2 = p")
      case True
      then show ?thesis using c2[of i] i ip p by simp
    next
      case False
      then show ?thesis using c1[of i] i ip p by simp
    qed
  qed
  have B: "h ! ?q \<le> ?h ! i" if i: "0 < i" "i < length h" "(i - 1) div 2 = ?q" for i
  proof (cases "i = p")
    case True
    then show ?thesis using p by simp
  next
    case False
    then show ?thesis using c1[of i] i q by simp
  qed
  have C: "?h ! ((?q - 1) div 2) \<le> ?h ! i"
    if i: "0 < i" "i < length h" "(i - 1) div 2 = ?q" "0 < ?q" for i
  proof -
    have "?h ! ((?q - 1) div 2) = h ! ((?q - 1) div 2)" using g by simp
    also have "\<dots> \<le> h ! ?q" using qq i by simp
    also have "\<dots> \<le> ?h ! i" using B i by simp
    finally show ?thesis .
  qed
  have D: "x \<le> ?h ! i" if i: "0 < i" "i < length h" "(i - 1) div 2 = ?q" for i
    using B[OF i] lt by simp
  have "hole_down ?h ?q"
    unfolding hole_down_def
  proof (intro conjI allI impI)
    show "?q < length ?h" using p q by simp
  next
    fix i assume "0 < i \<and> i < length ?h \<and> i \<noteq> ?q \<and> (i - 1) div 2 \<noteq> ?q"
    then show "?h ! ((i - 1) div 2) \<le> ?h ! i" using A[of i] by simp
  next
    fix i assume "0 < i \<and> i < length ?h \<and> (i - 1) div 2 = ?q \<and> 0 < ?q"
    then show "?h ! ((?q - 1) div 2) \<le> ?h ! i" using C[of i] by simp
  qed
  moreover have "\<forall>i. 0 < i \<and> i < length ?h \<and> (i - 1) div 2 = ?q \<longrightarrow> x \<le> ?h ! i"
    using D by simp
  ultimately show ?thesis unfolding hole_up_def by (rule conjI)
qed

lemma hole_up_stop:
  assumes inv: "hole_up h x p" and stop: "p = 0 \<or> \<not> x < h ! ((p - 1) div 2)"
  shows "is_heap (h[p := x])"
  unfolding is_heap_iff
proof (intro allI impI)
  fix i assume i: "0 < i \<and> i < length (h[p := x])"
  from inv have p: "p < length h"
    and c1: "\<And>i. 0 < i \<Longrightarrow> i < length h \<Longrightarrow> i \<noteq> p \<Longrightarrow> (i - 1) div 2 \<noteq> p \<Longrightarrow> h ! ((i - 1) div 2) \<le> h ! i"
    and c3: "\<And>i. 0 < i \<Longrightarrow> i < length h \<Longrightarrow> (i - 1) div 2 = p \<Longrightarrow> x \<le> h ! i"
    by (auto simp: hole_up_def hole_down_def)
  have ne: "(i - 1) div 2 \<noteq> i" using i by linarith
  consider "i = p" | "i \<noteq> p" "(i - 1) div 2 = p" | "i \<noteq> p" "(i - 1) div 2 \<noteq> p" by blast
  then show "h[p := x] ! ((i - 1) div 2) \<le> h[p := x] ! i"
  proof cases
    case 1
    then show ?thesis using stop i ne p by auto
  next
    case 2
    then show ?thesis using c3[of i] i p by simp
  next
    case 3
    then show ?thesis using c1[of i] i by simp
  qed
qed

lemma siftdown_loop_is_heap:
  "hole_up h x p \<Longrightarrow> is_heap (siftdown_loop h x 0 p)"
proof (induction h x "0::nat" p rule: siftdown_loop.induct)
  case (1 heap newitem pos)
  show ?case
  proof (cases "0 < pos \<and> newitem < heap ! ((pos - 1) div 2)")
    case True
    then have "hole_up (heap[pos := heap ! ((pos - 1) div 2)]) newitem ((pos - 1) div 2)"
      using hole_up_step[OF "1.prems"] by simp
    then have "is_heap (siftdown_loop (heap[pos := heap ! ((pos - 1) div 2)]) newitem 0 ((pos - 1) div 2))"
      using "1.hyps" True by simp
    then show ?thesis using True by (subst siftdown_loop.simps) (simp add: Let_def)
  next
    case False
    then have "siftdown_loop heap newitem 0 pos = heap[pos := newitem]"
      by (subst siftdown_loop.simps) (auto simp: Let_def)
    then show ?thesis using hole_up_stop[OF "1.prems"] False by auto
  qed
qed

lemma hole_down_step:
  assumes inv: "hole_down h p" and c: "2 * p + 1 < length h"
    and c': "c' = (if 2 * p + 2 < length h \<and> \<not> h ! (2 * p + 1) < h ! (2 * p + 2)
                   then 2 * p + 2 else 2 * p + 1)"
  shows "hole_down (h[p := h ! c']) c'"
proof -
  let ?h = "h[p := h ! c']"
  from inv have p: "p < length h"
    and c1: "\<And>i. 0 < i \<Longrightarrow> i < length h \<Longrightarrow> i \<noteq> p \<Longrightarrow> (i - 1) div 2 \<noteq> p \<Longrightarrow> h ! ((i - 1) div 2) \<le> h ! i"
    and c2: "\<And>i. 0 < i \<Longrightarrow> i < length h \<Longrightarrow> (i - 1) div 2 = p \<Longrightarrow> 0 < p \<Longrightarrow> h ! ((p - 1) div 2) \<le> h ! i"
    by (auto simp: hole_down_def)
  have cl: "c' < length h" and cp: "(c' - 1) div 2 = p" and cpos: "p < c'"
    using c c' by (auto split: if_splits)
  have small: "h ! c' \<le> h ! i" if "0 < i" "i < length h" "(i - 1) div 2 = p" for i
  proof -
    from that have "i = 2 * p + 1 \<or> i = 2 * p + 2" by linarith
    then show ?thesis using that c' by (auto split: if_splits)
  qed
  have A: "?h ! ((i - 1) div 2) \<le> ?h ! i"
    if i: "0 < i" "i < length h" "i \<noteq> c'" "(i - 1) div 2 \<noteq> c'" for i
  proof -
    consider "i = p" | "i \<noteq> p" "(i - 1) div 2 = p" | "i \<noteq> p" "(i - 1) div 2 \<noteq> p" by blast
    then show ?thesis
    proof cases
      case 1
      have "(p - 1) div 2 \<noteq> p" using i 1 by linarith
      then show ?thesis using 1 c2[of c'] cl cp cpos i p by simp
    next
      case 2
      then show ?thesis using small[of i] i p by simp
    next
      case 3
      then show ?thesis using c1[of i] i by simp
    qed
  qed
  have B: "?h ! ((c' - 1) div 2) \<le> ?h ! i"
    if i: "0 < i" "i < length h" "(i - 1) div 2 = c'" for i
  proof -
    have "i \<noteq> p" "(i - 1) div 2 \<noteq> p" using i cpos by linarith+
    then show ?thesis using c1[of i] i cp p by simp
  qed
  show ?thesis
    unfolding hole_down_def
  proof (intro conjI allI impI)
    show "c' < length ?h" using cl by simp
  next
    fix i assume "0 < i \<and> i < length ?h \<and> i \<noteq> c' \<and> (i - 1) div 2 \<noteq> c'"
    then show "?h ! ((i - 1) div 2) \<le> ?h ! i" using A[of i] by simp
  next
    fix i assume "0 < i \<and> i < length ?h \<and> (i - 1) div 2 = c' \<and> 0 < c'"
    then show "?h ! ((c' - 1) div 2) \<le> ?h ! i" using B[of i] by simp
  qed
qed

lemma siftup_loop_hole:
  "n = length h \<Longrightarrow> hole_down h p \<Longrightarrow> siftup_loop h n p = (h', p') \<Longrightarrow>
     hole_down h' p' \<and> length h' = length h \<and> length h' \<le> 2 * p' + 1"
proof (induction h n p arbitrary: h' p' rule: siftup_loop.induct)
  case (1 heap endpos pos)
  show ?case
  proof (cases "2 * pos + 1 < endpos")
    case True
    define c where "c = (if 2 * pos + 1 + 1 < endpos \<and> \<not> heap ! (2 * pos + 1) < heap ! (2 * pos + 1 + 1)
                         then 2 * pos + 1 + 1 else 2 * pos + 1)"
    have c_alt: "c = (if 2 * pos + 2 < length heap \<and> \<not> heap ! (2 * pos + 1) < heap ! (2 * pos + 2)
                      then 2 * pos + 2 else 2 * pos + 1)"
      unfolding c_def using "1.prems"(1) by simp
    have step: "siftup_loop heap endpos pos = siftup_loop (heap[pos := heap ! c]) endpos c"
      using True by (subst siftup_loop.simps) (simp add: Let_def c_def)
    have len: "endpos = length (heap[pos := heap ! c])"
      using "1.prems"(1) by simp
    have hd: "hole_down (heap[pos := heap ! c]) c"
      using hole_down_step[OF "1.prems"(2) _ c_alt] True "1.prems"(1) by simp
    have run: "siftup_loop (heap[pos := heap ! c]) endpos c = (h', p')"
      using step "1.prems"(3) by simp
    from "1.IH"[OF refl True refl c_def len hd run]
    show ?thesis by simp
  next
    case False
    then have "siftup_loop heap endpos pos = (heap, pos)"
      by (subst siftup_loop.simps) (simp add: Let_def)
    then show ?thesis using "1.prems" False by auto
  qed
qed

lemma hole_down_leaf:
  assumes "hole_down h p" "length h \<le> 2 * p + 1"
  shows "hole_up (h[p := x]) x p"
proof -
  from assms(1) have p: "p < length h"
    and c1: "\<And>i. 0 < i \<Longrightarrow> i < length h \<Longrightarrow> i \<noteq> p \<Longrightarrow> (i - 1) div 2 \<noteq> p \<Longrightarrow> h ! ((i - 1) div 2) \<le> h ! i"
    by (auto simp: hole_down_def)
  have leaf: "(i - 1) div 2 \<noteq> p" if "0 < i" "i < length h" for i
    using that assms(2) by linarith
  show ?thesis
    unfolding hole_up_def hole_down_def
  proof (intro conjI allI impI)
    show "p < length (h[p := x])" using p by simp
  next
    fix i assume "0 < i \<and> i < length (h[p := x]) \<and> i \<noteq> p \<and> (i - 1) div 2 \<noteq> p"
    then show "h[p := x] ! ((i - 1) div 2) \<le> h[p := x] ! i" using c1[of i] by simp
  next
    fix i assume "0 < i \<and> i < length (h[p := x]) \<and> (i - 1) div 2 = p \<and> 0 < p"
    then show "h[p := x] ! ((p - 1) div 2) \<le> h[p := x] ! i" using leaf[of i] by simp
  next
    fix i assume "0 < i \<and> i < length (h[p := x]) \<and> (i - 1) div 2 = p"
    then show "x \<le> h[p := x] ! i" using leaf[of i] by simp
  qed
qed

lemma mset_update_shift:
  assumes "p < length h" "q < length h" "q \<noteq> p"
  shows "mset (h[p := h ! q, q := x]) = mset (h[p := x])"
proof -
  have "mset (h[p := h ! q, q := x]) = mset ((h[p := x])[q := (h[p := x]) ! p, p := (h[p := x]) ! q])"
    using assms by (simp add: list_update_swap[of q p])
  also have "\<dots> = mset (h[p := x])"
    using assms by (intro mset_swap) simp_all
  finally show ?thesis .
qed

lemma mset_siftdown_loop:
  "p < length h \<Longrightarrow> mset (siftdown_loop h x s p) = mset (h[p := x])"
proof (induction h x s p rule: siftdown_loop.induct)
  case (1 heap newitem startpos pos)
  show ?case
  proof (cases "startpos < pos \<and> newitem < heap ! ((pos - 1) div 2)")
    case True
    then have q: "(pos - 1) div 2 < pos" by linarith
    have "mset (siftdown_loop heap newitem startpos pos) =
          mset (siftdown_loop (heap[pos := heap ! ((pos - 1) div 2)]) newitem startpos ((pos - 1) div 2))"
      using True by (subst siftdown_loop.simps) (simp add: Let_def)
    also have "\<dots> = mset (heap[pos := heap ! ((pos - 1) div 2), (pos - 1) div 2 := newitem])"
      using "1.IH"[OF _ refl refl] True q "1.prems" by simp
    also have "\<dots> = mset (heap[pos := newitem])"
      using mset_update_shift[of pos heap "(pos - 1) div 2" newitem] q "1.prems" by simp
    finally show ?thesis .
  next
    case False
    then have "siftdown_loop heap newitem startpos pos = heap[pos := newitem]"
      by (subst siftdown_loop.simps) (auto simp: Let_def)
    then show ?thesis by simp
  qed
qed

lemma mset_siftup_loop:
  "p < length h \<Longrightarrow> n \<le> length h \<Longrightarrow> siftup_loop h n p = (h', p') \<Longrightarrow>
     p' < length h' \<and> mset (h'[p' := x]) = mset (h[p := x])"
proof (induction h n p arbitrary: h' p' rule: siftup_loop.induct)
  case (1 heap endpos pos)
  show ?case
  proof (cases "2 * pos + 1 < endpos")
    case True
    define c where "c = (if 2 * pos + 1 + 1 < endpos \<and> \<not> heap ! (2 * pos + 1) < heap ! (2 * pos + 1 + 1)
                         then 2 * pos + 1 + 1 else 2 * pos + 1)"
    have c: "c < length heap" "c \<noteq> pos"
      using True "1.prems"(2) by (auto simp: c_def)
    have step: "siftup_loop heap endpos pos = siftup_loop (heap[pos := heap ! c]) endpos c"
      using True by (subst siftup_loop.simps) (simp add: Let_def c_def)
    have "p' < length h' \<and> mset (h'[p' := x]) = mset (heap[pos := heap ! c, c := x])"
      using "1.IH"[OF refl True refl c_def, of h' p'] c "1.prems" step by simp
    then show ?thesis
      using mset_update_shift[of pos heap c x] c "1.prems"(1) by simp
  next
    case False
    then have "siftup_loop heap endpos pos = (heap, pos)"
      by (subst siftup_loop.simps) (simp add: Let_def)
    then show ?thesis using "1.prems" by auto
  qed
qed

lemma mset_siftup:
  assumes "p < length h"
  shows "mset (siftup h p) = mset h"
proof -
  obtain h' p' where run: "siftup_loop h (length h) p = (h', p')"
    by (cases "siftup_loop h (length h) p")
  from mset_siftup_loop[OF assms _ run, of "h ! p"]
  have p': "p' < length h'" and ms: "mset (h'[p' := h ! p]) = mset h" by simp_all
  have "siftup h p = siftdown_loop (h'[p' := h ! p]) (h ! p) p p'"
    using run p' by (simp add: siftup_def siftdown_def Let_def)
  then show ?thesis using p' ms by (simp add: mset_siftdown_loop)
qed

lemma is_heap_siftup:
  assumes "hole_down h 0"
  shows "is_heap (siftup h 0)"
proof -
  obtain h' p' where run: "siftup_loop h (length h) 0 = (h', p')"
    by (cases "siftup_loop h (length h) 0")
  from siftup_loop_hole[OF refl assms run]
  have hd: "hole_down h' p'" and leaf: "length h' \<le> 2 * p' + 1" by simp_all
  then have p': "p' < length h'" by (simp add: hole_down_def)
  have "siftup h 0 = siftdown_loop (h'[p' := h ! 0]) (h ! 0) 0 p'"
    using run p' by (simp add: siftup_def siftdown_def Let_def)
  then show ?thesis
    using siftdown_loop_is_heap[OF hole_down_leaf[OF hd leaf, of "h ! 0"]] by simp
qed

lemma is_heap_root_le:
  assumes "is_heap h" "i < length h"
  shows "h ! 0 \<le> h ! i"
  using assms(2)
proof (induction i rule: less_induct)
  case (less i)
  show ?case
  proof (cases "i = 0")
    case True
    then show ?thesis by simp
  next
    case False
    then have "(i - 1) div 2 < i" by linarith
    then have "h ! 0 \<le> h ! ((i - 1) div 2)" using less by simp
    also have "\<dots> \<le> h ! i" using assms(1) False less.prems by (simp add: is_heap_iff)
    finally show ?thesis .
  qed
qed

lemma mset_heappush: "mset (heappush h x) = add_mset x (mset h)"
  by (simp add: heappush_def siftdown_def mset_siftdown_loop)

lemma length_heappush: "length (heappush h x) = Suc (length h)"
  by (simp add: heappush_def siftdown_def)

lemma is_heap_heappush:
  assumes "is_heap h"
  shows "is_heap (heappush h x)"
proof -
  have "hole_up (h @ [x]) x (length h)"
    unfolding hole_up_def hole_down_def
  proof (intro conjI allI impI)
    fix i assume i: "0 < i \<and> i < length (h @ [x]) \<and> i \<noteq> length h \<and> (i - 1) div 2 \<noteq> length h"
    then have "i < length h" "(i - 1) div 2 < length h" by auto
    then show "(h @ [x]) ! ((i - 1) div 2) \<le> (h @ [x]) ! i"
      using assms i by (simp add: nth_append is_heap_iff)
  qed auto
  then show ?thesis
    by (simp add: heappush_def siftdown_def siftdown_loop_is_heap)
qed

lemma mset_heappop:
  assumes "heappop h = Inr (r, h')"
  shows "mset h = add_mset r (mset h')"
proof (cases h rule: rev_cases)
  case Nil
  then show ?thesis using assms by (simp add: heappop_def)
next
  case (snoc ys y)
  show ?thesis
  proof (cases "ys = []")
    case True
    then show ?thesis using assms snoc by (auto simp: heappop_def)
  next
    case False
    then have r: "r = ys ! 0" and h': "h' = siftup (ys[0 := y]) 0"
      using assms snoc by (auto simp: heappop_def Let_def)
    have "mset h' = mset (ys[0 := y])"
      unfolding h' using False by (intro mset_siftup) simp
    then show ?thesis
      using False r snoc by (cases ys) auto
  qed
qed

lemma set_heappop: "heappop ol = Inr (t, ol') \<Longrightarrow> set ol = insert t (set ol')"
  by (drule mset_heappop) (metis set_mset_add_mset_insert set_mset_mset)

lemma is_heap_butlast: "is_heap h \<Longrightarrow> is_heap (butlast h)"
  by (auto simp: is_heap_iff nth_butlast)

lemma is_heap_heappop:
  assumes "is_heap h" "heappop h = Inr (r, h')"
  shows "is_heap h'"
proof (cases h rule: rev_cases)
  case Nil
  then show ?thesis using assms by (simp add: heappop_def)
next
  case (snoc ys y)
  show ?thesis
  proof (cases "ys = []")
    case True
    then show ?thesis using assms snoc by (auto simp: heappop_def is_heap_def)
  next
    case False
    then have h': "h' = siftup (ys[0 := y]) 0"
      using assms snoc by (auto simp: heappop_def Let_def)
    have ys: "is_heap ys" using is_heap_butlast[OF assms(1)] snoc by simp
    have "hole_down (ys[0 := y]) 0"
      unfolding hole_down_def
    proof (intro conjI allI impI)
      fix i assume i: "0 < i \<and> i < length (ys[0 := y]) \<and> i \<noteq> 0 \<and> (i - 1) div 2 \<noteq> 0"
      then show "ys[0 := y] ! ((i - 1) div 2) \<le> ys[0 := y] ! i"
        using ys by (simp add: is_heap_iff)
    qed (use False in auto)
    then show ?thesis unfolding h' by (rule is_heap_siftup)
  qed
qed

lemma heappop_min:
  assumes "is_heap h" "heappop h = Inr (r, h')"
  shows "\<forall>x \<in> set h. r \<le> x"
  using heappop_root[OF assms(2)] is_heap_root_le[OF assms(1)]
  by (auto simp: in_set_conv_nth)

section \<open>The loop of pop_node\<close>

lemma pop_loop_Nil: "pop_loop g [] = Inr (None, [])"
  by (subst pop_loop.simps) simp

lemma pop_loop_step:
  assumes "heappop ol = Inr (t, ol')" "resolve g t = Inr n"
  shows "pop_loop g ol = (if \<not> closed n then Inr (Some (t, n), ol') else pop_loop g ol')"
  using assms heappop_root[OF assms(1)] by (subst pop_loop.simps) simp

lemma pop_loop_error:
  assumes "heappop ol = Inr (t, ol')" "resolve g t = Inl e"
  shows "pop_loop g ol = Inl e"
  using assms heappop_root[OF assms(1)] by (subst pop_loop.simps) simp

lemma pop_loop_all_closed:
  "(\<forall>t \<in> set ol. \<exists>n. resolve g t = Inr n \<and> closed n) \<Longrightarrow> pop_loop g ol = Inr (None, [])"
proof (induction ol rule: length_induct)
  case (1 ol)
  show ?case
  proof (cases "ol = []")
    case True
    then show ?thesis by (simp add: pop_loop_Nil)
  next
    case False
    then obtain t ol' where hp: "heappop ol = Inr (t, ol')"
      using heappop_nonempty by blast
    have s: "set ol = insert t (set ol')" by (rule set_heappop[OF hp])
    then obtain n where n: "resolve g t = Inr n" "closed n" using "1.prems" by auto
    have "pop_loop g ol = pop_loop g ol'"
      using pop_loop_step[OF hp n(1)] n(2) by simp
    moreover have "pop_loop g ol' = Inr (None, [])"
      using "1.IH" length_heappop[OF hp] "1.prems" s by auto
    ultimately show ?thesis by simp
  qed
qed

lemma pop_loop_None: "pop_loop g ol = Inr (None, ol') \<Longrightarrow> ol' = []"
proof (induction ol arbitrary: ol' rule: length_induct)
  case (1 ol)
  show ?case
  proof (cases "ol = []")
    case True
    then show ?thesis using "1.prems" by (simp add: pop_loop_Nil)
  next
    case False
    then obtain t ol1 where hp: "heappop ol = Inr (t, ol1)"
      using heappop_nonempty by blast
    show ?thesis
    proof (cases "resolve g t")
      case (Inl e)
      then show ?thesis using pop_loop_error[OF hp Inl] "1.prems" by simp
    next
      case (Inr n)
      then have "closed n" and "pop_loop g ol1 = Inr (None, ol')"
        using pop_loop_step[OF hp Inr] "1.prems" by (auto split: if_splits)
      then show ?thesis using "1.IH" length_heappop[OF hp] by auto
    qed
  qed
qed

lemma pop_loop_Some_sound:
  "pop_loop g ol = Inr (Some (t, n), ol') \<Longrightarrow>
     resolve g t = Inr n \<and> \<not> closed n \<and> add_mset t (mset ol') \<subseteq># mset ol"
proof (induction ol rule: length_induct)
  case (1 ol)
  show ?case
  proof (cases "ol = []")
    case True
    then show ?thesis using "1.prems" by (simp add: pop_loop_Nil)
  next
    case False
    then obtain r ol1 where hp: "heappop ol = Inr (r, ol1)"
      using heappop_nonempty by blast
    have ms: "mset ol = add_mset r (mset ol1)" by (rule mset_heappop[OF hp])
    show ?thesis
    proof (cases "resolve g r")
      case (Inl e)
      then show ?thesis using pop_loop_error[OF hp Inl] "1.prems" by simp
    next
      case (Inr m)
      show ?thesis
      proof (cases "closed m")
        case True
        then have "pop_loop g ol1 = Inr (Some (t, n), ol')"
          using pop_loop_step[OF hp Inr] "1.prems" by simp
        then have "resolve g t = Inr n \<and> \<not> closed n \<and> add_mset t (mset ol') \<subseteq># mset ol1"
          using "1.IH" length_heappop[OF hp] by auto
        then show ?thesis using ms by (auto intro: subset_mset.order_trans)
      next
        case False
        then have "t = r" "n = m" "ol' = ol1"
          using pop_loop_step[OF hp Inr] "1.prems" by simp_all
        then show ?thesis using Inr False ms by simp
      qed
    qed
  qed
qed

lemma pop_loop_Some_heap:
  "is_heap ol \<Longrightarrow> pop_loop g ol = Inr (Some (t, n), ol') \<Longrightarrow>
     is_heap ol' \<and> (\<forall>x \<in> set ol'. t \<le> x)"
proof (induction ol rule: length_induct)
  case (1 ol)
  show ?case
  proof (cases "ol = []")
    case True
    then show ?thesis using "1.prems" by (simp add: pop_loop_Nil)
  next
    case False
    then obtain r ol1 where hp: "heappop ol = Inr (r, ol1)"
      using heappop_nonempty by blast
    have h1: "is_heap ol1" by (rule is_heap_heappop[OF "1.prems"(1) hp])
    have mn: "\<forall>x \<in> set ol1. r \<le> x"
      using heappop_min[OF "1.prems"(1) hp] set_heappop[OF hp] by simp
    show ?thesis
    proof (cases "resolve g r")
      case (Inl e)
      then show ?thesis using pop_loop_error[OF hp Inl] "1.prems" by simp
    next
      case (Inr m)
      show ?thesis
      proof (cases "closed m")
        case True
        then have "pop_loop g ol1 = Inr (Some (t, n), ol')"
          using pop_loop_step[OF hp Inr] "1.prems" by simp
        then show ?thesis using "1.IH" length_heappop[OF hp] h1 by auto
      next
        case False
        then have "t = r" "ol' = ol1"
          using pop_loop_step[OF hp Inr] "1.prems" by simp_all
        then show ?thesis using h1 mn by simp
      qed
    qed
  qed
qed


section \<open>Building keys and pushing\<close>

lemma get_node_tuple_Inr:
  "g \<noteq> Unsupported \<Longrightarrow> \<exists>t. get_node_tuple g n k = Inr t"
  by (cases g) simp_all

lemma get_node_tuple_shape:
  "get_node_tuple g n k = Inr t \<Longrightarrow>
     g \<noteq> Unsupported \<and> 3 \<le> length t \<and> t ! 0 = node_f n \<and> t ! 1 = k"
  by (cases g) auto

lemma push_node_eq:
  "get_node_tuple (grid h) n (number_pushed h + 1) = Inr t \<Longrightarrow>
     push_node h n =
       Inr (h\<lparr>number_pushed := number_pushed h + 1, open_list := heappush (open_list h) t\<rparr>)"
  by (simp add: push_node_def Let_def)

lemma push_node_Inr:
  assumes "push_node h n = Inr h'"
  shows "\<exists>t. get_node_tuple (grid h) n (number_pushed h + 1) = Inr t \<and>
             h' = h\<lparr>number_pushed := number_pushed h + 1, open_list := heappush (open_list h) t\<rparr>"
  using assms by (auto simp: push_node_def Let_def split: sum.splits)

lemma push_node_Inl: "push_node h n = Inl e \<Longrightarrow> grid h = Unsupported"
  by (cases "grid h") (auto simp: push_node_def Let_def)

lemma push_node_fields:
  assumes "push_node h n = Inr h'"
  shows "grid h' = grid h" "number_pushed h' = number_pushed h + 1"
    "length (open_list h') = Suc (length (open_list h))"
  using push_node_Inr[OF assms] by (auto simp: length_heappush)

lemma push_node_mset:
  assumes "push_node h n = Inr h'"
  shows "mset (open_list h') =
           mset (open_list h) + mset (pushed_keys (grid h) (number_pushed h) [n])"
  using push_node_Inr[OF assms] by (auto simp: mset_heappush)

lemma push_node_is_heap:
  assumes "push_node h n = Inr h'" "is_heap (open_list h)"
  shows "is_heap (open_list h')"
  using push_node_Inr[OF assms(1)] assms(2) by (auto simp: is_heap_heappush)

text \<open>
  C8. On a heap over a recognized container, \<^verbatim>\<open>push_node\<close> returns normally. It adds
  one to \<^verbatim>\<open>number_pushed\<close> and changes the counter in no other way, so that the
  counter grows strictly; the key it builds with \<^verbatim>\<open>_get_node_tuple\<close> carries the new
  value of the counter as its insertion order; \<^verbatim>\<open>open_list\<close> gains exactly this one
  key and its length grows by one; the container, which owns the pushed node and every
  other node, is left as it was.
\<close>

theorem push_node_contract:
  assumes "grid h \<noteq> Unsupported"
  shows "\<exists>t h'. get_node_tuple (grid h) node (number_pushed h + 1) = Inr t \<and>
           push_node h node = Inr h' \<and>
           number_pushed h' = number_pushed h + 1 \<and>
           number_pushed h < number_pushed h' \<and>
           t ! 1 = number_pushed h' \<and>
           mset (open_list h') = add_mset t (mset (open_list h)) \<and>
           len h' = len h + 1 \<and>
           grid h' = grid h"
proof -
  obtain t where t: "get_node_tuple (grid h) node (number_pushed h + 1) = Inr t"
    using get_node_tuple_Inr[OF assms] by blast
  let ?h' = "h\<lparr>number_pushed := number_pushed h + 1, open_list := heappush (open_list h) t\<rparr>"
  have "push_node h node = Inr ?h'" by (rule push_node_eq[OF t])
  moreover have "t ! 1 = number_pushed ?h'"
    using get_node_tuple_shape[OF t] by simp
  moreover have "mset (open_list ?h') = add_mset t (mset (open_list h))"
    by (simp add: mset_heappush)
  moreover have "len ?h' = len h + 1"
    by (simp add: len_def length_heappush)
  ultimately show ?thesis using t by auto
qed

theorem push_node_contract_witness:
  "grid \<lparr>grid = grid_AB, open_list = [[5, 0, 0, 0]], number_pushed = 0\<rparr> \<noteq> Unsupported \<and>
   (\<exists>t h'. get_node_tuple grid_AB node_B 1 = Inr t \<and>
      push_node \<lparr>grid = grid_AB, open_list = [[5, 0, 0, 0]], number_pushed = 0\<rparr> node_B = Inr h' \<and>
      number_pushed h' = 1 \<and> t ! 1 = 1 \<and>
      mset (open_list h') = {#t, [5, 0, 0, 0]#} \<and> len h' = 2 \<and> grid h' = grid_AB)"
  using push_node_contract
    [of "\<lparr>grid = grid_AB, open_list = [[5, 0, 0, 0]], number_pushed = 0\<rparr>" node_B]
  by (auto simp: grid_AB_def len_def)

section \<open>Unrecognized containers\<close>

text \<open>
  C7. Over a container that is neither a graph, nor a grid, nor a world, building a key
  raises \<^verbatim>\<open>AssertionError\<close>, and so does the constructor, which builds the key of the
  start node: no heap is made and none of the three key layouts is used.
\<close>

theorem unsupported_container_fails:
  "init node Unsupported = Inl AssertionError \<and>
   get_node_tuple Unsupported node heap_order = Inl AssertionError"
  by (simp add: init_def)

section \<open>Removing\<close>

text \<open>
  C10. \<^verbatim>\<open>remove_node\<close> changes nothing, whatever the node and the cost it is given:
  the heap after the call is the heap before it, with the same entries, the same
  counter, the same container (and so the same nodes) and the same length.
\<close>

theorem remove_node_noop:
  "remove_node h node f = h \<and>
   open_list (remove_node h node f) = open_list h \<and>
   number_pushed (remove_node h node f) = number_pushed h \<and>
   grid (remove_node h node f) = grid h \<and>
   len (remove_node h node f) = len h"
  by (simp add: remove_node_def)

text \<open>
  C2. The claim is that a node removed with \<^verbatim>\<open>remove_node\<close>, not pushed again and
  never closed, is not returned by \<^verbatim>\<open>pop_node\<close> any more; the docstring of
  \<^verbatim>\<open>remove_node\<close> promises the same (the node is ignored if it does get popped).
  The code does not do it: after the constructor on the open node \<open>node_A\<close> and
  \<^verbatim>\<open>remove_node(A, 5)\<close>, the next \<^verbatim>\<open>pop_node\<close> returns \<open>node_A\<close>.
\<close>

theorem removed_node_is_popped: "remove_scenario = Inr (Some node_A)"
  by (simp add: remove_scenario_def model_simps node_A_def grid_AB_def)

section \<open>Popping\<close>

lemma heappop_single: "heappop [t] = Inr (t, [])"
  by (simp add: heappop_def)

text \<open>
  A key built for the container of the heap always resolves to a node; on a list of such
  keys \<^verbatim>\<open>pop_node\<close> raises nothing.
\<close>

lemma resolve_key:
  assumes "get_node_tuple g n k = Inr t"
  shows "\<exists>m. resolve g t = Inr m"
  using assms by (cases g) (auto simp: tuple_get_def)

lemma pop_loop_no_error:
  "\<forall>t \<in> set ol. \<exists>n. resolve g t = Inr n \<Longrightarrow> \<exists>r ol'. pop_loop g ol = Inr (r, ol')"
proof (induction ol rule: length_induct)
  case (1 ol)
  show ?case
  proof (cases "ol = []")
    case True
    then show ?thesis by (simp add: pop_loop_Nil)
  next
    case False
    then obtain t ol1 where hp: "heappop ol = Inr (t, ol1)"
      using heappop_nonempty by blast
    have s: "set ol = insert t (set ol1)" by (rule set_heappop[OF hp])
    then obtain n where n: "resolve g t = Inr n" using "1.prems" by auto
    show ?thesis
    proof (cases "closed n")
      case True
      then have "pop_loop g ol = pop_loop g ol1" using pop_loop_step[OF hp n] by simp
      then show ?thesis using "1.IH" length_heappop[OF hp] "1.prems" s by auto
    next
      case False
      then show ?thesis using pop_loop_step[OF hp n] by simp
    qed
  qed
qed

lemma pop_node_no_error:
  assumes "\<forall>t \<in> set (open_list h). \<exists>n k. get_node_tuple (grid h) n k = Inr t"
  shows "\<exists>r h'. pop_node h = Inr (r, h')"
proof -
  have "\<forall>t \<in> set (open_list h). \<exists>n. resolve (grid h) t = Inr n"
    using assms resolve_key by blast
  from pop_loop_no_error[OF this] show ?thesis by (auto simp: pop_node_def)
qed

text \<open>
  The key built for a node of the container resolves to that node.
\<close>

lemma has_node_key:
  "has_node g n \<Longrightarrow> \<exists>t. get_node_tuple g n k = Inr t"
  by (cases g) (simp_all add: has_node_def)

lemma resolve_own_key:
  assumes "has_node g n" "get_node_tuple g n k = Inr t"
  shows "resolve g t = Inr n"
  using assms by (cases g) (auto simp: has_node_def tuple_get_def)

text \<open>
  C9. Construct the heap on a single start node that is open and is a node of the
  container. Then the constructor succeeds, the first \<^verbatim>\<open>pop_node\<close> looks the stored
  key up in the container and returns the start node, and a second \<^verbatim>\<open>pop_node\<close>
  right after it returns \<^verbatim>\<open>None\<close>.
\<close>

theorem single_start:
  assumes "has_node g start" "\<not> closed start"
  shows "\<exists>h h'. init start g = Inr h \<and>
           pop_node h = Inr (Some start, h') \<and>
           pop_node h' = Inr (None, h')"
proof -
  obtain t where t: "get_node_tuple g start 0 = Inr t"
    using has_node_key[OF assms(1)] by blast
  have r: "resolve g t = Inr start" by (rule resolve_own_key[OF assms(1) t])
  let ?h = "\<lparr>grid = g, open_list = [t], number_pushed = 0\<rparr>"
  let ?h' = "?h\<lparr>open_list := []\<rparr>"
  have "init start g = Inr ?h" using t by (simp add: init_def)
  moreover have "pop_loop g [t] = Inr (Some (t, start), [])"
    using pop_loop_step[OF heappop_single r] assms(2) by simp
  then have "pop_node ?h = Inr (Some start, ?h')" by (simp add: pop_node_def)
  moreover have "pop_node ?h' = Inr (None, ?h')"
    by (simp add: pop_node_def pop_loop_Nil)
  ultimately show ?thesis by blast
qed

theorem single_start_witness:
  "has_node graph_S node_S \<and> has_node grid_S node_S \<and> has_node world_S node_S \<and>
   \<not> closed node_S \<and>
   resolve graph_S [7, 0, 4] = Inr node_S \<and>
   resolve grid_S [7, 0, 1, 2] = Inr node_S \<and>
   resolve world_S [7, 0, 1, 2, 3] = Inr node_S \<and>
   (\<exists>h h'. init node_S graph_S = Inr h \<and>
      pop_node h = Inr (Some node_S, h') \<and> pop_node h' = Inr (None, h')) \<and>
   (\<exists>h h'. init node_S grid_S = Inr h \<and>
      pop_node h = Inr (Some node_S, h') \<and> pop_node h' = Inr (None, h')) \<and>
   (\<exists>h h'. init node_S world_S = Inr h \<and>
      pop_node h = Inr (Some node_S, h') \<and> pop_node h' = Inr (None, h'))"
proof -
  have 1: "has_node graph_S node_S" "has_node grid_S node_S" "has_node world_S node_S"
    by (simp_all add: has_node_def graph_S_def grid_S_def world_S_def node_S_def)
  have 2: "\<not> closed node_S" by (simp add: node_S_def)
  have 3: "resolve graph_S [7, 0, 4] = Inr node_S"
    "resolve grid_S [7, 0, 1, 2] = Inr node_S"
    "resolve world_S [7, 0, 1, 2, 3] = Inr node_S"
    by (simp_all add: graph_S_def grid_S_def world_S_def tuple_get_def)
  from single_start[OF 1(1) 2] single_start[OF 1(2) 2] single_start[OF 1(3) 2] 1 2 3
  show ?thesis by blast
qed

text \<open>
  C6. When every entry of \<^verbatim>\<open>open_list\<close> belongs to a closed node (in particular
  when there is no entry at all), \<^verbatim>\<open>pop_node\<close> raises nothing and returns \<^verbatim>\<open>None\<close>,
  however many entries the list still holds when it is called; the call discards them
  all.
\<close>

theorem pop_node_exhausted:
  assumes "\<forall>t \<in> set (open_list h). \<exists>n. resolve (grid h) t = Inr n \<and> closed n"
  shows "pop_node h = Inr (None, h\<lparr>open_list := []\<rparr>)"
  using pop_loop_all_closed[OF assms] by (simp add: pop_node_def)

theorem pop_node_exhausted_witness:
  "resolve grid_AB_closed [3, 1, 1, 0] = Inr (node_B\<lparr>closed := True\<rparr>) \<and>
   resolve grid_AB_closed [5, 0, 0, 0] = Inr (node_A\<lparr>closed := True\<rparr>) \<and>
   closed (node_B\<lparr>closed := True\<rparr>) \<and> closed (node_A\<lparr>closed := True\<rparr>) \<and>
   0 < len \<lparr>grid = grid_AB_closed, open_list = [[3, 1, 1, 0], [5, 0, 0, 0]], number_pushed = 1\<rparr> \<and>
   pop_node \<lparr>grid = grid_AB_closed, open_list = [[3, 1, 1, 0], [5, 0, 0, 0]], number_pushed = 1\<rparr> =
     Inr (None, \<lparr>grid = grid_AB_closed, open_list = [], number_pushed = 1\<rparr>)"
proof -
  have 1: "\<forall>t \<in> set [[3, 1, 1, 0], [5, 0, 0, 0]]. \<exists>n. resolve grid_AB_closed t = Inr n \<and> closed n"
    by (simp add: grid_AB_closed_def tuple_get_def)
  have 2: "resolve grid_AB_closed [3, 1, 1, 0] = Inr (node_B\<lparr>closed := True\<rparr>)"
    "resolve grid_AB_closed [5, 0, 0, 0] = Inr (node_A\<lparr>closed := True\<rparr>)"
    by (simp_all add: grid_AB_closed_def tuple_get_def)
  from pop_node_exhausted
    [of "\<lparr>grid = grid_AB_closed, open_list = [[3, 1, 1, 0], [5, 0, 0, 0]], number_pushed = 1\<rparr>"]
    1 2
  show ?thesis by (simp add: len_def)
qed

section \<open>Pushes followed by pops\<close>

lemma push_nodes_total:
  "grid h \<noteq> Unsupported \<Longrightarrow> \<exists>h'. push_nodes h ns = Inr h'"
proof (induction ns arbitrary: h)
  case Nil
  then show ?case by simp
next
  case (Cons n ns)
  obtain h1 where h1: "push_node h n = Inr h1"
    using Cons.prems push_node_Inl by (cases "push_node h n") auto
  then have "grid h1 \<noteq> Unsupported" using Cons.prems push_node_fields(1)[OF h1] by simp
  then show ?case using Cons.IH[of h1] h1 by simp
qed

lemma push_nodes_facts:
  "push_nodes h ns = Inr h' \<Longrightarrow>
     grid h' = grid h \<and> number_pushed h' = number_pushed h + int (length ns) \<and>
     length (open_list h') = length (open_list h) + length ns \<and>
     mset (open_list h') = mset (open_list h) + mset (pushed_keys (grid h) (number_pushed h) ns) \<and>
     (is_heap (open_list h) \<longrightarrow> is_heap (open_list h'))"
proof (induction ns arbitrary: h)
  case Nil
  then show ?case by simp
next
  case (Cons n ns)
  then obtain h1 where h1: "push_node h n = Inr h1" and rest: "push_nodes h1 ns = Inr h'"
    by (auto split: sum.splits)
  note f = push_node_fields[OF h1] push_node_mset[OF h1]
  from Cons.IH[OF rest] f push_node_is_heap[OF h1]
  show ?case by (auto split: sum.splits)
qed

lemma pushed_keys_nth:
  "t \<in> set (pushed_keys g p ns) \<longleftrightarrow>
     (\<exists>k < length ns. get_node_tuple g (ns ! k) (p + 1 + int k) = Inr t)"
proof (induction ns arbitrary: p)
  case Nil
  then show ?case by simp
next
  case (Cons n ns)
  have "(\<exists>k < length (n # ns). get_node_tuple g ((n # ns) ! k) (p + 1 + int k) = Inr t) \<longleftrightarrow>
        get_node_tuple g n (p + 1) = Inr t \<or>
        (\<exists>k < length ns. get_node_tuple g (ns ! k) (p + 1 + 1 + int k) = Inr t)"
    (is "?L \<longleftrightarrow> ?A \<or> ?B")
  proof
    assume ?L
    then obtain k where k: "k < length (n # ns)" "get_node_tuple g ((n # ns) ! k) (p + 1 + int k) = Inr t"
      by blast
    show "?A \<or> ?B"
    proof (cases k)
      case 0
      then show ?thesis using k by simp
    next
      case (Suc m)
      then have "m < length ns" "get_node_tuple g (ns ! m) (p + 1 + 1 + int m) = Inr t"
        using k by (simp_all add: algebra_simps)
      then show ?thesis by blast
    qed
  next
    assume "?A \<or> ?B"
    then show ?L
    proof
      assume ?A
      then have "get_node_tuple g ((n # ns) ! 0) (p + 1 + int 0) = Inr t" by simp
      then show ?L by blast
    next
      assume ?B
      then obtain m where "m < length ns" "get_node_tuple g (ns ! m) (p + 1 + 1 + int m) = Inr t"
        by blast
      then have "Suc m < length (n # ns)"
        "get_node_tuple g ((n # ns) ! Suc m) (p + 1 + int (Suc m)) = Inr t"
        by (simp_all add: algebra_simps)
      then show ?L by blast
    qed
  qed
  then show ?case using Cons.IH[of "p + 1"] by (auto split: sum.splits)
qed

lemma init_Inr:
  assumes "init n g = Inr h"
  shows "\<exists>t. get_node_tuple g n 0 = Inr t \<and> h = \<lparr>grid = g, open_list = [t], number_pushed = 0\<rparr>"
  using assms by (auto simp: init_def split: sum.splits)

lemma is_heap_single: "is_heap [t]"
  by (simp add: is_heap_def)

lemma built_keys:
  assumes "init n0 g = Inr h0" "push_nodes h0 ns = Inr h"
  shows "t \<in> set (open_list h) \<longleftrightarrow>
           (\<exists>k < length (n0 # ns). get_node_tuple g ((n0 # ns) ! k) (int k) = Inr t)"
proof -
  obtain t0 where t0: "get_node_tuple g n0 0 = Inr t0"
    and h0: "h0 = \<lparr>grid = g, open_list = [t0], number_pushed = 0\<rparr>"
    using init_Inr[OF assms(1)] by blast
  have "mset (open_list h) = mset [t0] + mset (pushed_keys g 0 ns)"
    using push_nodes_facts[OF assms(2)] h0 by simp
  then have "set_mset (mset (open_list h)) = set_mset (mset [t0] + mset (pushed_keys g 0 ns))"
    by simp
  then have "set (open_list h) = insert t0 (set (pushed_keys g 0 ns))"
    by simp
  then have "t \<in> set (open_list h) \<longleftrightarrow>
      t = t0 \<or> (\<exists>k < length ns. get_node_tuple g (ns ! k) (int (Suc k)) = Inr t)"
    by (simp add: pushed_keys_nth add.commute)
  also have "\<dots> \<longleftrightarrow> (\<exists>k < length (n0 # ns). get_node_tuple g ((n0 # ns) ! k) (int k) = Inr t)"
    (is "?A \<or> ?B \<longleftrightarrow> ?R")
  proof
    assume "?A \<or> ?B"
    then show ?R
    proof
      assume ?A
      then have "get_node_tuple g ((n0 # ns) ! 0) (int 0) = Inr t" using t0 by simp
      then show ?R by blast
    next
      assume ?B
      then obtain k where "k < length ns" "get_node_tuple g (ns ! k) (int (Suc k)) = Inr t" by blast
      then have "Suc k < length (n0 # ns)" "get_node_tuple g ((n0 # ns) ! Suc k) (int (Suc k)) = Inr t"
        by simp_all
      then show ?R by blast
    qed
  next
    assume ?R
    then obtain k where k: "k < length (n0 # ns)" "get_node_tuple g ((n0 # ns) ! k) (int k) = Inr t"
      by blast
    show "?A \<or> ?B"
    proof (cases k)
      case 0
      then show ?thesis using k t0 by simp
    next
      case (Suc m)
      then show ?thesis using k by auto
    qed
  qed
  finally show ?thesis .
qed

lemma built_is_heap:
  assumes "init n0 g = Inr h0" "push_nodes h0 ns = Inr h"
  shows "is_heap (open_list h)"
  using init_Inr[OF assms(1)] push_nodes_facts[OF assms(2)] by (auto simp: is_heap_single)

lemma pops_sorted:
  "is_heap (open_list h) \<Longrightarrow> pops h gs = Inr ps \<Longrightarrow>
     sorted (map fst ps) \<and> fst ` set ps \<subseteq> set (open_list h)"
proof (induction gs arbitrary: h ps)
  case Nil
  then show ?case by simp
next
  case (Cons g gs)
  show ?case
  proof (cases "pop_loop g (open_list h)")
    case (Inl e)
    then show ?thesis using Cons.prems(2) by simp
  next
    case (Inr p)
    obtain r ol where p: "p = (r, ol)" by (cases p)
    show ?thesis
    proof (cases r)
      case None
      then show ?thesis using Inr p Cons.prems(2) by auto
    next
      case (Some tn)
      obtain t n where tn: "tn = (t, n)" by (cases tn)
      have run: "pop_loop g (open_list h) = Inr (Some (t, n), ol)"
        using Inr p Some tn by simp
      let ?h = "h\<lparr>grid := g, open_list := ol\<rparr>"
      obtain rs where rs: "pops ?h gs = Inr rs" and ps: "ps = (t, n) # rs"
        using Cons.prems(2) run by (auto split: sum.splits)
      have heap: "is_heap ol" and low: "\<forall>x \<in> set ol. t \<le> x"
        using pop_loop_Some_heap[OF Cons.prems(1) run] by simp_all
      have sub: "add_mset t (mset ol) \<subseteq># mset (open_list h)"
        using pop_loop_Some_sound[OF run] by simp
      have mem: "t \<in> set (open_list h)" "set ol \<subseteq> set (open_list h)"
        using set_mset_mono[OF sub] by simp_all
      have IH: "sorted (map fst rs)" "fst ` set rs \<subseteq> set ol"
        using Cons.IH[OF _ rs] heap by simp_all
      show ?thesis using IH low mem ps by auto
    qed
  qed
qed

lemma tuple_le_first:
  fixes t t' :: "int list"
  assumes "t \<le> t'" "t \<noteq> []" "t' \<noteq> []"
  shows "t ! 0 \<le> t' ! 0"
  using assms by (cases t; cases t') (auto simp: Cons_le_Cons)

text \<open>
  The nodes that \<open>pops\<close> lists are what the successive calls of \<^verbatim>\<open>pop_node\<close>
  return.
\<close>

lemma pops_pop_node:
  "map_sum id (map snd) (pops h (g # gs)) =
     (case pop_node (h\<lparr>grid := g\<rparr>) of
        Inl e \<Rightarrow> Inl e
      | Inr (None, h') \<Rightarrow> Inr []
      | Inr (Some n, h') \<Rightarrow> map_sum id (\<lambda>ps. n # map snd ps) (pops h' gs))"
  by (auto simp: pop_node_def split: sum.splits option.splits prod.splits)

text \<open>
  As long as the container keeps its class, the calls raise nothing: every key in the
  list was built for this class and resolves to a node.
\<close>

lemma resolve_key_kind:
  assumes "get_node_tuple g n k = Inr t" "same_kind g g'"
  shows "\<exists>m. resolve g' t = Inr m"
  using assms by (cases g; cases g') (auto simp: tuple_get_def)

lemma pops_no_error:
  "\<forall>t \<in> set (open_list h). \<exists>n k. get_node_tuple g n k = Inr t \<Longrightarrow>
     list_all (same_kind g) gs \<Longrightarrow> \<exists>ps. pops h gs = Inr ps"
proof (induction gs arbitrary: h)
  case Nil
  then show ?case by simp
next
  case (Cons g' gs)
  have "\<forall>t \<in> set (open_list h). \<exists>m. resolve g' t = Inr m"
  proof
    fix t assume "t \<in> set (open_list h)"
    then obtain n k where "get_node_tuple g n k = Inr t" using Cons.prems(1) by blast
    moreover have "same_kind g g'" using Cons.prems(2) by simp
    ultimately show "\<exists>m. resolve g' t = Inr m" by (rule resolve_key_kind)
  qed
  from pop_loop_no_error[OF this] obtain r ol where run: "pop_loop g' (open_list h) = Inr (r, ol)"
    by blast
  show ?case
  proof (cases r)
    case None
    then show ?thesis using run by simp
  next
    case (Some tn)
    obtain t n where tn: "tn = (t, n)" by (cases tn)
    have "add_mset t (mset ol) \<subseteq># mset (open_list h)"
      using pop_loop_Some_sound[of g' "open_list h" t n ol] run Some tn by simp
    from set_mset_mono[OF this] have "set ol \<subseteq> set (open_list h)" by simp
    then have "\<forall>t \<in> set (open_list (h\<lparr>grid := g', open_list := ol\<rparr>)).
        \<exists>n k. get_node_tuple g n k = Inr t"
      using Cons.prems(1) by auto
    from Cons.IH[OF this] Cons.prems(2)
    obtain rs where "pops (h\<lparr>grid := g', open_list := ol\<rparr>) gs = Inr rs" by auto
    then show ?thesis using run Some by simp
  qed
qed

text \<open>
  C4. Build a heap on a start node, over a recognized container, and push any list of
  nodes. Then, whatever the driver does to the nodes between the calls, successive
  calls of \<^verbatim>\<open>pop_node\<close> raise nothing and the nodes they return come out in
  nondecreasing order of the cost they had when they were pushed: each returned node
  comes with the key that one of the pushes built for it, the first component of that
  key is the \<^verbatim>\<open>f\<close> the node had at that push, and these components never decrease
  from one returned node to the next. Entries skipped because their node is closed do
  not appear among the results.
\<close>

theorem pops_ordered:
  assumes "g \<noteq> Unsupported" "list_all (same_kind g) gs"
  shows "\<exists>h0 h ps.
           init n0 g = Inr h0 \<and> push_nodes h0 ns = Inr h \<and> pops h gs = Inr ps \<and>
           sorted (map (\<lambda>(t, n). t ! 0) ps) \<and>
           (\<forall>(t, n) \<in> set ps.
              \<exists>k < length (n0 # ns).
                get_node_tuple g ((n0 # ns) ! k) (int k) = Inr t \<and>
                t ! 0 = node_f ((n0 # ns) ! k))"
proof -
  obtain t0 where t0: "get_node_tuple g n0 0 = Inr t0"
    using get_node_tuple_Inr[OF assms(1)] by blast
  define h0 where "h0 = \<lparr>grid = g, open_list = [t0], number_pushed = 0\<rparr>"
  have init: "init n0 g = Inr h0" using t0 by (simp add: init_def h0_def)
  obtain h where push: "push_nodes h0 ns = Inr h"
    using push_nodes_total[of h0 ns] assms(1) by (auto simp: h0_def)
  note keys = built_keys[OF init push]
  have "\<forall>t \<in> set (open_list h). \<exists>n k. get_node_tuple g n k = Inr t"
    using keys by blast
  from pops_no_error[OF this assms(2)] obtain ps where ps: "pops h gs = Inr ps" by blast
  have srt: "sorted (map fst ps)" and sub: "fst ` set ps \<subseteq> set (open_list h)"
    using pops_sorted[OF built_is_heap[OF init push] ps] by simp_all
  have key: "\<exists>k < length (n0 # ns).
      get_node_tuple g ((n0 # ns) ! k) (int k) = Inr t \<and> t ! 0 = node_f ((n0 # ns) ! k)"
    if "(t, n) \<in> set ps" for t n
  proof -
    have "t \<in> set (open_list h)" using that sub by force
    then obtain k where k: "k < length (n0 # ns)" "get_node_tuple g ((n0 # ns) ! k) (int k) = Inr t"
      using keys by blast
    then show ?thesis using get_node_tuple_shape[OF k(2)] by blast
  qed
  have ne: "fst p \<noteq> []" if "p \<in> set ps" for p
  proof -
    obtain t n where p: "p = (t, n)" by (cases p)
    then have "(t, n) \<in> set ps" using that by simp
    from key[OF this] obtain k where "get_node_tuple g ((n0 # ns) ! k) (int k) = Inr t"
      by blast
    then show ?thesis using get_node_tuple_shape[of g _ _ t] p by auto
  qed
  have "sorted_wrt (\<lambda>p q. fst p \<le> fst q) ps"
    using srt by (simp add: sorted_map)
  then have "sorted_wrt (\<lambda>p q. fst p ! 0 \<le> fst q ! 0) ps"
  proof (rule sorted_wrt_mono_rel[rotated])
    fix p q assume "p \<in> set ps" "q \<in> set ps" "fst p \<le> fst q"
    then show "fst p ! 0 \<le> fst q ! 0" using tuple_le_first ne by blast
  qed
  then have "sorted (map (\<lambda>(t, n). t ! 0) ps)"
    by (simp add: sorted_map case_prod_unfold)
  then show ?thesis using init push ps key by blast
qed

theorem pops_ordered_witness:
  "grid_ABC \<noteq> Unsupported \<and>
   list_all (same_kind grid_ABC) [grid_ABC, grid_ABC, grid_ABC] \<and>
   init node_A grid_ABC = Inr \<lparr>grid = grid_ABC, open_list = [[5, 0, 0, 0]], number_pushed = 0\<rparr> \<and>
   push_nodes \<lparr>grid = grid_ABC, open_list = [[5, 0, 0, 0]], number_pushed = 0\<rparr> [node_B, node_C] =
     Inr \<lparr>grid = grid_ABC, open_list = [[3, 1, 1, 0], [5, 0, 0, 0], [3, 2, 2, 0]], number_pushed = 2\<rparr> \<and>
   pops \<lparr>grid = grid_ABC, open_list = [[3, 1, 1, 0], [5, 0, 0, 0], [3, 2, 2, 0]], number_pushed = 2\<rparr>
       [grid_ABC, grid_ABC, grid_ABC] =
     Inr [([3, 1, 1, 0], node_B), ([3, 2, 2, 0], node_C), ([5, 0, 0, 0], node_A)] \<and>
   (\<exists>h0 h ps.
      init node_A grid_ABC = Inr h0 \<and> push_nodes h0 [node_B, node_C] = Inr h \<and>
      pops h [grid_ABC, grid_ABC, grid_ABC] = Inr ps \<and>
      sorted (map (\<lambda>(t, n). t ! 0) ps))"
proof -
  let ?s = "\<lparr>grid = grid_ABC, open_list = [[5, 0, 0, 0]], number_pushed = 0\<rparr>"
  let ?h = "\<lparr>grid = grid_ABC, open_list = [[3, 1, 1, 0], [5, 0, 0, 0], [3, 2, 2, 0]], number_pushed = 2\<rparr>"
  let ?gs = "[grid_ABC, grid_ABC, grid_ABC]"
  have 0: "grid_ABC \<noteq> Unsupported" "list_all (same_kind grid_ABC) ?gs"
    by (simp_all add: grid_ABC_def)
  have 1: "init node_A grid_ABC = Inr ?s"
    by (simp add: init_def node_A_def node_B_def node_C_def grid_ABC_def tuple_get_def)
  have 2: "push_nodes ?s [node_B, node_C] = Inr ?h"
    by (simp add: push_node_def heapq_simps node_A_def node_B_def node_C_def grid_ABC_def tuple_get_def)
  have 3: "pops ?h ?gs =
     Inr [([3, 1, 1, 0], node_B), ([3, 2, 2, 0], node_C), ([5, 0, 0, 0], node_A)]"
    by (simp add: pop_loop.simps heapq_simps node_A_def node_B_def node_C_def grid_ABC_def tuple_get_def)
  from pops_ordered[OF 0, of node_A "[node_B, node_C]"]
  have "\<exists>h0 h ps.
      init node_A grid_ABC = Inr h0 \<and> push_nodes h0 [node_B, node_C] = Inr h \<and>
      pops h ?gs = Inr ps \<and> sorted (map (\<lambda>(t, n). t ! 0) ps)"
    by blast
  then show ?thesis using 0 1 2 3 by blast
qed





section \<open>Retention\<close>

lemma revise_nodes_facts:
  "grid h \<noteq> Unsupported \<Longrightarrow>
     \<exists>h'. revise_nodes h rs = Inr h' \<and> grid h' = grid h \<and>
          len h' = len h + length rs \<and> mset (open_list h) \<subseteq># mset (open_list h')"
proof (induction rs arbitrary: h)
  case Nil
  then show ?case by simp
next
  case (Cons r rs)
  obtain n old_f where r: "r = (n, old_f)" by (cases r)
  obtain h1 where h1: "push_node h n = Inr h1"
    using Cons.prems push_node_Inl by (cases "push_node h n") auto
  note f = push_node_fields[OF h1] push_node_mset[OF h1]
  have "grid h1 \<noteq> Unsupported" using Cons.prems f(1) by simp
  from Cons.IH[OF this] obtain h' where h': "revise_nodes h1 rs = Inr h'" "grid h' = grid h1"
    "len h' = len h1 + length rs" "mset (open_list h1) \<subseteq># mset (open_list h')"
    by blast
  have "mset (open_list h) \<subseteq># mset (open_list h1)" using f(4) by simp
  then have "mset (open_list h) \<subseteq># mset (open_list h')"
    using h'(4) by (rule subset_mset.order_trans)
  moreover have "revise_nodes h (r # rs) = Inr h'"
    using r h1 h'(1) by (simp add: remove_node_def)
  moreover have "len h' = len h + length (r # rs)"
    using h'(3) f(3) by (simp add: len_def)
  ultimately show ?case using h'(2) f(1) by auto
qed

lemma revise_nodes_all:
  "revise_nodes h rs = Inr h' \<Longrightarrow> \<forall>t \<in> set (open_list h). P t \<Longrightarrow>
     \<forall>(n, f) \<in> set rs. \<forall>k t. get_node_tuple (grid h) n k = Inr t \<longrightarrow> P t \<Longrightarrow>
     \<forall>t \<in> set (open_list h'). P t"
proof (induction rs arbitrary: h)
  case Nil
  then show ?case by simp
next
  case (Cons r rs)
  obtain n old_f where r: "r = (n, old_f)" by (cases r)
  from Cons.prems(1) r obtain h1 where h1: "push_node h n = Inr h1"
    and rest: "revise_nodes h1 rs = Inr h'"
    by (auto simp: remove_node_def split: sum.splits)
  obtain t where t: "get_node_tuple (grid h) n (number_pushed h + 1) = Inr t"
    and h1_eq: "h1 = h\<lparr>number_pushed := number_pushed h + 1,
                         open_list := heappush (open_list h) t\<rparr>"
    using push_node_Inr[OF h1] by blast
  have "P t" using Cons.prems(3) r t by auto
  moreover have "set (open_list h1) = insert t (set (open_list h))"
  proof -
    have "mset (open_list h1) = add_mset t (mset (open_list h))"
      using h1_eq by (simp add: mset_heappush)
    then have "set_mset (mset (open_list h1)) = set_mset (add_mset t (mset (open_list h)))"
      by simp
    then show ?thesis by simp
  qed
  ultimately have 1: "\<forall>t \<in> set (open_list h1). P t" using Cons.prems(2) by simp
  have 2: "\<forall>(n, f) \<in> set rs. \<forall>k t. get_node_tuple (grid h1) n k = Inr t \<longrightarrow> P t"
    using Cons.prems(3) h1_eq by auto
  show ?case by (rule Cons.IH[OF rest 1 2])
qed

text \<open>
  C1, as amended. Every cost revision, \<^verbatim>\<open>remove_node\<close> followed by \<^verbatim>\<open>push_node\<close>,
  retains one more entry and discards none: after any sequence of revisions on a heap
  over a recognized container, \<^verbatim>\<open>open_list\<close> holds all the entries it held before
  and its length has grown by the number of revisions. Revising \<open>K\<close> nodes \<open>N\<close>
  times each adds \<open>K * N\<close> entries.
\<close>

theorem retention_grows:
  assumes "grid h \<noteq> Unsupported"
  shows "\<exists>h'. revise_nodes h rs = Inr h' \<and> len h' = len h + length rs \<and>
              mset (open_list h) \<subseteq># mset (open_list h')"
  using revise_nodes_facts[OF assms] by blast

theorem retention_grows_witness:
  "grid \<lparr>grid = grid_AB, open_list = [[5, 0, 0, 0]], number_pushed = 0\<rparr> \<noteq> Unsupported \<and>
   (\<exists>h'. revise_nodes \<lparr>grid = grid_AB, open_list = [[5, 0, 0, 0]], number_pushed = 0\<rparr>
            [(node_A\<lparr>node_f := 4\<rparr>, 5), (node_B\<lparr>node_f := 2\<rparr>, 3), (node_A\<lparr>node_f := 3\<rparr>, 4)]
          = Inr h' \<and> len h' = 4)"
  using retention_grows
    [of "\<lparr>grid = grid_AB, open_list = [[5, 0, 0, 0]], number_pushed = 0\<rparr>"
        "[(node_A\<lparr>node_f := 4\<rparr>, 5), (node_B\<lparr>node_f := 2\<rparr>, 3), (node_A\<lparr>node_f := 3\<rparr>, 4)]"]
  by (auto simp: grid_AB_def len_def)

text \<open>
  C1 as stated fails. Construct the heap on \<open>node_A\<close> and revise the cost of
  \<open>node_A\<close> \<open>N\<close> times, lowering it by one each time and never closing the node: no
  constant bounds the number of entries retained for \<open>node_A\<close>, which is \<open>N + 1\<close>.
\<close>

theorem retention_unbounded:
  "\<not> (\<exists>c. \<forall>N h'.
        revise_nodes \<lparr>grid = grid_AB, open_list = [[5, 0, 0, 0]], number_pushed = 0\<rparr>
          (map (\<lambda>k. (node_A\<lparr>node_f := 5 - int k\<rparr>, 6 - int k)) [1..<Suc N]) = Inr h' \<longrightarrow>
        length (filter (\<lambda>t. drop 2 t = [node_x node_A, node_y node_A]) (open_list h')) \<le> c)"
proof
  let ?h = "\<lparr>grid = grid_AB, open_list = [[5, 0, 0, 0]], number_pushed = 0\<rparr>"
  let ?rs = "\<lambda>N. map (\<lambda>k. (node_A\<lparr>node_f := 5 - int k\<rparr>, 6 - int k)) [1..<Suc N]"
  let ?P = "\<lambda>t. drop 2 t = [node_x node_A, node_y node_A]"
  assume "\<exists>c. \<forall>N h'. revise_nodes ?h (?rs N) = Inr h' \<longrightarrow>
            length (filter ?P (open_list h')) \<le> c"
  then obtain c where c: "\<And>N h'. revise_nodes ?h (?rs N) = Inr h' \<Longrightarrow>
      length (filter ?P (open_list h')) \<le> c"
    by blast
  have g: "grid ?h \<noteq> Unsupported" by (simp add: grid_AB_def)
  obtain h' where h': "revise_nodes ?h (?rs c) = Inr h'" "len h' = len ?h + length (?rs c)"
    using revise_nodes_facts[OF g, of "?rs c"] by blast
  have "\<forall>t \<in> set (open_list h'). ?P t"
  proof (rule revise_nodes_all[OF h'(1)])
    show "\<forall>t \<in> set (open_list ?h). ?P t" by (simp add: node_A_def)
    show "\<forall>(n, f) \<in> set (?rs c). \<forall>k t. get_node_tuple (grid ?h) n k = Inr t \<longrightarrow> ?P t"
      by (auto simp: grid_AB_def)
  qed
  then have "filter ?P (open_list h') = open_list h'" by (simp add: filter_id_conv)
  then have "length (filter ?P (open_list h')) = Suc c"
    using h'(2) by (simp add: len_def)
  then show False using c[OF h'(1)] by simp
qed

section \<open>The cost revision scenario\<close>

text \<open>
  C3. In the scenario of the specification the first two calls of \<^verbatim>\<open>pop_node\<close>
  return \<open>A\<close> with cost 2 and then \<open>B\<close>, as claimed. The claim also says that the
  stale entry of \<open>A\<close>, keyed with cost 5, never comes out as a result. The code does
  not ensure it: \<^verbatim>\<open>remove_node\<close> has left the entry in the list, and when the nodes
  are not closed in between, the third \<^verbatim>\<open>pop_node\<close> returns \<open>A\<close> again, through
  that entry.
\<close>

theorem stale_entry_surfaces:
  "revision_scenario grid_A2B grid_A2B grid_A2B =
     Inr [Some (node_A\<lparr>node_f := 2\<rparr>), Some node_B, Some (node_A\<lparr>node_f := 2\<rparr>)]"
  by (simp add: revision_scenario_def model_simps node_A_def node_B_def grid_AB_def grid_A2B_def)

text \<open>
  When the driver closes each node that \<^verbatim>\<open>pop_node\<close> gives it, as the search does,
  the stale entry is skipped and the third call returns \<^verbatim>\<open>None\<close>.
\<close>

lemma stale_entry_skipped_when_closed:
  "revision_scenario grid_A2B grid_A2B_closed_A grid_A2B_closed_AB =
     Inr [Some (node_A\<lparr>node_f := 2\<rparr>), Some node_B, None]"
  by (simp add: revision_scenario_def model_simps node_A_def node_B_def grid_AB_def grid_A2B_def
      grid_A2B_closed_A_def grid_A2B_closed_AB_def)

end
